theory Spec2Isabelle
  imports
    Main
    "HOL-Library.Char_ord"
    "HOL-Library.List_Lexorder"
    "HOL-Library.Product_Lexorder"
    "HOL-Library.Multiset"
    "HOL-Library.Sublist"
begin

section \<open>GLAM query generators of bigquery-etl\<close>

text \<open>
  The development embeds the two generator modules under
  \<^verbatim>\<open>src/bigquery_etl/glam\<close>:
  \<^item> \<^verbatim>\<open>clients_daily_histogram_aggregates.py\<close>: \<^verbatim>\<open>get_distribution_metrics\<close> (the
    schema walker) and \<^verbatim>\<open>get_metrics_sql\<close> (the metric tuple builder);
  \<^item> \<^verbatim>\<open>probe_counts.py\<close>: the loop of \<^verbatim>\<open>render_query\<close> that fills
    \<^verbatim>\<open>attribute_combinations\<close> (the attribute combination enumerator).

  Python strings are \<^typ>\<open>string\<close> (the UTF-8 bytes); their comparison is the
  lexicographic order of \<^theory_text>\<open>List_Lexorder\<close> over the byte order of
  \<^theory_text>\<open>Char_ord\<close>, and Python's tuple comparison is the order of
  \<^theory_text>\<open>Product_Lexorder\<close>.
\<close>

subsection \<open>Schemas\<close>

text \<open>
  A schema is a list of dictionaries. The walker reads two keys of each: \<^verbatim>\<open>"name"\<close>,
  which every field has, and \<^verbatim>\<open>"fields"\<close>, which only a structural field has. A
  subscript \<^verbatim>\<open>d["fields"]\<close> on a dictionary without the key raises \<^verbatim>\<open>KeyError\<close>.
\<close>

datatype field = Field (name: string) (fields: "field list option")

datatype py_error = KeyError string

type_synonym metrics = "string \<rightharpoonup> string list"

subsection \<open>The schema walker: \<^verbatim>\<open>get_distribution_metrics\<close>\<close>

definition metric_type_set :: "string set" where
  "metric_type_set =
     {''timing_distribution'', ''memory_distribution'', ''custom_distribution''}"

text \<open>\<^verbatim>\<open>metrics = {metric_type: [] for metric_type in metric_type_set}\<close>\<close>

definition init_metrics :: metrics where
  "init_metrics = (\<lambda>metric_type. if metric_type \<in> metric_type_set then Some [] else None)"

text \<open>\<^verbatim>\<open>metrics[metric_type].append(n)\<close>: the subscript raises on a missing key.\<close>

definition append_metric :: "metrics \<Rightarrow> string \<Rightarrow> string \<Rightarrow> py_error + metrics" where
  "append_metric m metric_type n =
     (case m metric_type of
        None \<Rightarrow> Inl (KeyError metric_type)
      | Some ns \<Rightarrow> Inr (m(metric_type \<mapsto> ns @ [n])))"

text \<open>\<^verbatim>\<open>for field in metric_field["fields"]: metrics[metric_type].append(field["name"])\<close>\<close>

fun scan_leaves :: "string \<Rightarrow> field list \<Rightarrow> metrics \<Rightarrow> py_error + metrics" where
  "scan_leaves metric_type [] m = Inr m"
| "scan_leaves metric_type (f # fs) m =
     (case append_metric m metric_type (name f) of
        Inl e \<Rightarrow> Inl e
      | Inr m' \<Rightarrow> scan_leaves metric_type fs m')"

text \<open>The loop over \<^verbatim>\<open>root_field["fields"]\<close>, lines 48 to 53.\<close>

fun scan_metric_fields :: "field list \<Rightarrow> metrics \<Rightarrow> py_error + metrics" where
  "scan_metric_fields [] m = Inr m"
| "scan_metric_fields (metric_field # rest) m =
     (let metric_type = name metric_field in
      if metric_type \<notin> metric_type_set then scan_metric_fields rest m
      else case fields metric_field of
             None \<Rightarrow> Inl (KeyError ''fields'')
           | Some fs \<Rightarrow>
               (case scan_leaves metric_type fs m of
                  Inl e \<Rightarrow> Inl e
                | Inr m' \<Rightarrow> scan_metric_fields rest m'))"

text \<open>The loop over \<^verbatim>\<open>schema\<close>, lines 45 to 53.\<close>

fun scan_root_fields :: "field list \<Rightarrow> metrics \<Rightarrow> py_error + metrics" where
  "scan_root_fields [] m = Inr m"
| "scan_root_fields (root_field # rest) m =
     (if name root_field \<noteq> ''metrics'' then scan_root_fields rest m
      else case fields root_field of
             None \<Rightarrow> Inl (KeyError ''fields'')
           | Some mfs \<Rightarrow>
               (case scan_metric_fields mfs m of
                  Inl e \<Rightarrow> Inl e
                | Inr m' \<Rightarrow> scan_root_fields rest m'))"

definition get_distribution_metrics :: "field list \<Rightarrow> py_error + metrics" where
  "get_distribution_metrics schema = scan_root_fields schema init_metrics"

text \<open>
  What the walker is expected to find, stated on the schema: the root field is the
  top-level field named \<^verbatim>\<open>metrics\<close>, a field without a \<^verbatim>\<open>"fields"\<close> entry has no
  children, and the leaves of a metric type are the children of the root's children of
  that name, in schema order.
\<close>

definition children :: "field \<Rightarrow> field list" where
  "children f = (case fields f of None \<Rightarrow> [] | Some fs \<Rightarrow> fs)"

definition is_root :: "field \<Rightarrow> bool" where
  "is_root f = (name f = ''metrics'')"

definition root_children :: "field list \<Rightarrow> field list" where
  "root_children schema = (case find is_root schema of None \<Rightarrow> [] | Some r \<Rightarrow> children r)"

definition type_leaves :: "string \<Rightarrow> field list \<Rightarrow> string list" where
  "type_leaves metric_type mfs =
     concat (map (\<lambda>c. map name (children c)) (filter (\<lambda>c. name c = metric_type) mfs))"

definition leaf_names :: "string \<Rightarrow> field list \<Rightarrow> string list" where
  "leaf_names metric_type schema = type_leaves metric_type (root_children schema)"

definition all_leaf_names :: "field list \<Rightarrow> string list" where
  "all_leaf_names schema =
     concat (map (\<lambda>c. map name (children c))
                 (filter (\<lambda>c. name c \<in> metric_type_set) (root_children schema)))"

text \<open>
  For the loop invariants: the children of every top-level field named \<^verbatim>\<open>metrics\<close>, and
  a mapping with the leaves of a list of metric fields appended to its lists.
\<close>

definition all_root_children :: "field list \<Rightarrow> field list" where
  "all_root_children schema = concat (map children (filter is_root schema))"

definition add_leaves :: "metrics \<Rightarrow> field list \<Rightarrow> metrics" where
  "add_leaves m mfs =
     (\<lambda>t. if t \<in> metric_type_set
          then map_option (\<lambda>ns. ns @ type_leaves t mfs) (m t)
          else m t)"

text \<open>
  The subscripts the walker evaluates: \<^verbatim>\<open>"fields"\<close> of every top-level field named
  \<^verbatim>\<open>metrics\<close>, and of each of its children that is named by a metric type.
\<close>

definition metric_fields_present :: "field list \<Rightarrow> bool" where
  "metric_fields_present mfs =
     list_all (\<lambda>mf. name mf \<in> metric_type_set \<longrightarrow> fields mf \<noteq> None) mfs"

definition fields_present :: "field list \<Rightarrow> bool" where
  "fields_present schema =
     list_all (\<lambda>rf. name rf = ''metrics'' \<longrightarrow>
                 (case fields rf of None \<Rightarrow> False | Some mfs \<Rightarrow> metric_fields_present mfs))
              schema"

subsection \<open>The metric tuple builder: \<^verbatim>\<open>get_metrics_sql\<close>\<close>

text \<open>
  The argument is a dictionary read through \<^verbatim>\<open>items()\<close>: the list of its entries in
  iteration order. An item is the tuple \<^verbatim>\<open>(name, metric_type, sum_path, value_path)\<close>.
\<close>

type_synonym catalog = "(string \<times> string list) list"

type_synonym item = "string \<times> string \<times> string \<times> string"

text \<open>Lines 63 to 66: the three f-strings and the tuple.\<close>

definition make_item :: "string \<Rightarrow> string \<Rightarrow> item" where
  "make_item metric_type nm =
     (let path = ''metrics.'' @ metric_type @ ''.'' @ nm;
          sum_path = path @ ''.sum'';
          value_path = path @ ''.values''
      in (nm, metric_type, sum_path, value_path))"

text \<open>Lines 60 to 66: the two nested loops appending to \<^verbatim>\<open>items\<close>.\<close>

definition collect_items :: "catalog \<Rightarrow> item list" where
  "collect_items metrics =
     fold (\<lambda>(metric_type, metric_names) items.
             fold (\<lambda>nm items. items @ [make_item metric_type nm]) metric_names items)
          metrics []"

text \<open>Line 71: \<^verbatim>\<open>f"""("{name}", "{metric_type}", {sum_path}, {value_path})"""\<close>\<close>

definition render_item :: "item \<Rightarrow> string" where
  "render_item = (\<lambda>(nm, metric_type, sum_path, value_path).
     ''(\"'' @ nm @ ''\", \"'' @ metric_type @ ''\", '' @ sum_path @ '', '' @ value_path @ '')'')"

text \<open>\<^verbatim>\<open>sorted(items)\<close>: ascending in the order of the tuples.\<close>

definition sorted_items :: "catalog \<Rightarrow> item list" where
  "sorted_items metrics = sort (collect_items metrics)"

text \<open>Lines 69 to 71: the loop appending to \<^verbatim>\<open>results\<close>.\<close>

definition metric_results :: "catalog \<Rightarrow> string list" where
  "metric_results metrics =
     fold (\<lambda>item results. results @ [render_item item]) (sorted_items metrics) []"

text \<open>\<^verbatim>\<open>sep.join(xs)\<close>\<close>

fun join :: "string \<Rightarrow> string list \<Rightarrow> string" where
  "join sep [] = []"
| "join sep [x] = x"
| "join sep (x # y # ys) = x @ sep @ join sep (y # ys)"

definition get_metrics_sql :: "catalog \<Rightarrow> string" where
  "get_metrics_sql metrics = join '','' (metric_results metrics)"

text \<open>
  The \<^verbatim>\<open>(name, type)\<close> pair of an item, and every \<^verbatim>\<open>(type, name)\<close> pair of a catalog,
  one for each occurrence of a name in a list.
\<close>

definition name_type :: "item \<Rightarrow> string \<times> string" where
  "name_type = (\<lambda>(nm, metric_type, sum_path, value_path). (nm, metric_type))"

definition catalog_pairs :: "catalog \<Rightarrow> (string \<times> string) list" where
  "catalog_pairs metrics =
     concat (map (\<lambda>(metric_type, metric_names). map (Pair metric_type) metric_names) metrics)"

subsection \<open>The attribute combination enumerator: \<^verbatim>\<open>render_query\<close>\<close>

text \<open>
  \<^verbatim>\<open>itertools.combinations(pool, r)\<close> of the Python standard library, as its
  documentation describes it: the subsequences of \<^verbatim>\<open>pool\<close> of length \<^verbatim>\<open>r\<close>, elements
  told apart by position, in lexicographic order of their positions. The lemmas
  \<open>in_combinations_iff\<close> and \<open>combinations_strict_sorted\<close> below state both halves.
\<close>

fun combinations :: "'a list \<Rightarrow> nat \<Rightarrow> 'a list list" where
  "combinations xs 0 = [[]]"
| "combinations [] (Suc r) = []"
| "combinations (x # xs) (Suc r) =
     map ((#) x) (combinations xs r) @ combinations xs (Suc r)"

text \<open>Lines 34 to 36: one flag per attribute, in the order of \<^verbatim>\<open>attributes\<close>.\<close>

definition select_expr :: "string list \<Rightarrow> string list \<Rightarrow> (string \<times> bool) list" where
  "select_expr attributes grouping =
     fold (\<lambda>attribute select_expr. select_expr @ [(attribute, attribute \<in> set grouping)])
          attributes []"

text \<open>Lines 32 to 37: the body of the inner loop; \<^verbatim>\<open>continue\<close> leaves the list as it is.\<close>

definition grouping_step ::
  "string list \<Rightarrow> string list \<Rightarrow> (string \<times> bool) list list \<Rightarrow> (string \<times> bool) list list" where
  "grouping_step attributes grouping attribute_combinations =
     (if ''channel'' \<notin> set grouping \<or> ''app_version'' \<notin> set grouping
      then attribute_combinations
      else attribute_combinations @ [select_expr attributes grouping])"

text \<open>Lines 27 to 37: \<^verbatim>\<open>reversed(range(max_combinations + 1))\<close> is the outer loop.\<close>

definition attribute_combinations :: "string list \<Rightarrow> (string \<times> bool) list list" where
  "attribute_combinations attributes =
     (let max_combinations = length attributes in
      fold (\<lambda>subset_size acc.
              fold (grouping_step attributes) (combinations attributes subset_size) acc)
           (rev [0..<max_combinations + 1]) [])"

text \<open>The attributes the loop requires in a grouping.\<close>

definition required :: "string set" where
  "required = {''channel'', ''app_version''}"

text \<open>The groupings that pass the test of line 32.\<close>

definition eligible :: "string list \<Rightarrow> bool" where
  "eligible grouping \<longleftrightarrow> ''channel'' \<in> set grouping \<and> ''app_version'' \<in> set grouping"

text \<open>
  The groupings the loop keeps, in the order it visits them, and the same groupings as
  lists of positions in \<^verbatim>\<open>attributes\<close>.
\<close>

definition eligible_groupings :: "string list \<Rightarrow> string list list" where
  "eligible_groupings attributes =
     concat (map (\<lambda>subset_size. filter eligible (combinations attributes subset_size))
                 (rev [0..<length attributes + 1]))"

definition eligible_positions :: "string list \<Rightarrow> nat list list" where
  "eligible_positions attributes =
     concat (map (\<lambda>subset_size.
                    filter (\<lambda>ps. eligible (map ((!) attributes) ps))
                           (combinations [0..<length attributes] subset_size))
                 (rev [0..<length attributes + 1]))"

text \<open>What a combination includes: the positions, and the attributes, flagged true.\<close>

definition included_indices :: "(string \<times> bool) list \<Rightarrow> nat list" where
  "included_indices c = filter (\<lambda>i. snd (c ! i)) [0..<length c]"

definition included :: "(string \<times> bool) list \<Rightarrow> string set" where
  "included c = set (map fst (filter snd c))"

text \<open>
  The order of emission: a combination that includes more comes first, and of two that
  include as many, the one whose positions are lexicographically smaller.
\<close>

definition emitted_before :: "nat list \<Rightarrow> nat list \<Rightarrow> bool" where
  "emitted_before a b \<longleftrightarrow> length b < length a \<or> (length a = length b \<and> a < b)"

section \<open>Loops as list functions\<close>

lemma fold_append_map: "fold (\<lambda>x acc. acc @ [f x]) xs acc = acc @ map f xs"
  by (induction xs arbitrary: acc) simp_all

lemma fold_append_concat: "fold (\<lambda>x acc. acc @ g x) xs acc = acc @ concat (map g xs)"
  by (induction xs arbitrary: acc) simp_all

lemma collect_items_eq:
  "collect_items metrics = concat (map (\<lambda>(metric_type, metric_names). map (make_item metric_type) metric_names) metrics)"
proof -
  have "(\<lambda>(metric_type, metric_names) items.
             fold (\<lambda>nm items. items @ [make_item metric_type nm]) metric_names items)
      = (\<lambda>p acc. acc @ (\<lambda>(metric_type, metric_names). map (make_item metric_type) metric_names) p)"
    by (simp add: fun_eq_iff fold_append_map)
  then show ?thesis
    by (simp add: collect_items_def fold_append_concat)
qed

lemma metric_results_eq: "metric_results metrics = map render_item (sorted_items metrics)"
  by (simp add: metric_results_def fold_append_map)

lemma select_expr_eq:
  "select_expr attributes grouping = map (\<lambda>a. (a, a \<in> set grouping)) attributes"
  by (simp add: select_expr_def fold_append_map)

lemma fold_grouping_step:
  "fold (grouping_step attributes) gs acc
     = acc @ map (select_expr attributes) (filter eligible gs)"
  by (induction gs arbitrary: acc) (simp_all add: grouping_step_def eligible_def)

lemma attribute_combinations_eq:
  "attribute_combinations attributes =
     concat (map (\<lambda>subset_size. map (select_expr attributes)
                                   (filter eligible (combinations attributes subset_size)))
                 (rev [0..<length attributes + 1]))"
  unfolding attribute_combinations_def Let_def fold_grouping_step
  by (simp only: fold_append_concat append_Nil)


section \<open>Properties of the schema walker\<close>

lemma type_leaves_append:
  "type_leaves t (xs @ ys) = type_leaves t xs @ type_leaves t ys"
  by (simp add: type_leaves_def)

lemma type_leaves_Cons:
  "type_leaves t (c # cs) = (if name c = t then map name (children c) else []) @ type_leaves t cs"
  by (simp add: type_leaves_def)

lemma type_leaves_Nil: "type_leaves t [] = []"
  by (simp add: type_leaves_def)

lemma add_leaves_Nil: "add_leaves m [] = m"
  by (auto simp: add_leaves_def type_leaves_Nil fun_eq_iff option.map_ident)

lemma add_leaves_append: "add_leaves (add_leaves m xs) ys = add_leaves m (xs @ ys)"
  by (auto simp: add_leaves_def type_leaves_append fun_eq_iff option.map_comp comp_def)

lemma dom_add_leaves: "dom (add_leaves m mfs) = dom m"
  by (auto simp: add_leaves_def dom_def)

lemma scan_leaves_appends:
  "m t = Some ns \<Longrightarrow> scan_leaves t fs m = Inr (m(t \<mapsto> ns @ map name fs))"
proof (induction fs arbitrary: m ns)
  case Nil
  then have "m(t \<mapsto> ns) = m" by (simp add: fun_upd_idem)
  then show ?case by simp
next
  case (Cons f fs)
  have "scan_leaves t fs (m(t \<mapsto> ns @ [name f]))
          = Inr ((m(t \<mapsto> ns @ [name f]))(t \<mapsto> (ns @ [name f]) @ map name fs))"
    by (rule Cons.IH) simp
  then show ?case
    using Cons.prems by (auto simp: append_metric_def fun_eq_iff)
qed

lemma scan_leaves_add_leaves:
  assumes "t \<in> metric_type_set" and "metric_type_set \<subseteq> dom m"
  shows "scan_leaves t fs m = Inr (add_leaves m [Field t (Some fs)])"
proof -
  from assms obtain ns where ns: "m t = Some ns" by blast
  have "m(t \<mapsto> ns @ map name fs) = add_leaves m [Field t (Some fs)]"
    using ns assms(1)
    by (auto simp: add_leaves_def type_leaves_def children_def fun_eq_iff option.map_ident)
  with scan_leaves_appends [of m t ns fs] ns show ?thesis by simp
qed

lemma add_leaves_skip:
  "name c \<notin> metric_type_set \<Longrightarrow> add_leaves m (c # cs) = add_leaves m cs"
  by (auto simp: add_leaves_def type_leaves_Cons fun_eq_iff)

lemma add_leaves_same_name:
  "name c = name c' \<Longrightarrow> children c = children c' \<Longrightarrow> add_leaves m [c] = add_leaves m [c']"
  by (auto simp: add_leaves_def type_leaves_def fun_eq_iff)

lemma scan_metric_fields_eq:
  "metric_type_set \<subseteq> dom m \<Longrightarrow>
   scan_metric_fields mfs m =
     (if metric_fields_present mfs then Inr (add_leaves m mfs) else Inl (KeyError ''fields''))"
proof (induction mfs arbitrary: m)
  case Nil
  then show ?case by (simp add: metric_fields_present_def add_leaves_Nil)
next
  case (Cons c cs)
  show ?case
  proof (cases "name c \<in> metric_type_set")
    case False
    then show ?thesis
      using Cons by (simp add: metric_fields_present_def add_leaves_skip)
  next
    case True
    show ?thesis
    proof (cases "fields c")
      case None
      then show ?thesis using True by (simp add: metric_fields_present_def)
    next
      case (Some fs)
      let ?m' = "add_leaves m [Field (name c) (Some fs)]"
      have step: "scan_leaves (name c) fs m = Inr ?m'"
        using True Cons.prems by (rule scan_leaves_add_leaves)
      have dom': "metric_type_set \<subseteq> dom ?m'"
        using Cons.prems by (simp add: dom_add_leaves)
      have "add_leaves m [Field (name c) (Some fs)] = add_leaves m [c]"
        using Some by (intro add_leaves_same_name) (simp_all add: children_def)
      then have "add_leaves ?m' cs = add_leaves m (c # cs)"
        using add_leaves_append [of m "[c]" cs] by simp
      then show ?thesis
        using True Some step Cons.IH [OF dom']
        by (simp add: metric_fields_present_def)
    qed
  qed
qed

lemma all_root_children_Cons:
  "all_root_children (f # fs) = (if is_root f then children f else []) @ all_root_children fs"
  by (simp add: all_root_children_def)

lemma scan_root_fields_eq:
  "metric_type_set \<subseteq> dom m \<Longrightarrow>
   scan_root_fields schema m =
     (if fields_present schema then Inr (add_leaves m (all_root_children schema))
      else Inl (KeyError ''fields''))"
proof (induction schema arbitrary: m)
  case Nil
  then show ?case by (simp add: fields_present_def all_root_children_def add_leaves_Nil)
next
  case (Cons f fs)
  show ?case
  proof (cases "name f = ''metrics''")
    case False
    then show ?thesis
      using Cons by (simp add: fields_present_def all_root_children_Cons is_root_def)
  next
    case True
    show ?thesis
    proof (cases "fields f")
      case None
      then show ?thesis using True by (simp add: fields_present_def)
    next
      case (Some mfs)
      show ?thesis
      proof (cases "metric_fields_present mfs")
        case False
        then show ?thesis
          using True Some Cons.prems
          by (simp add: fields_present_def scan_metric_fields_eq)
      next
        case present: True
        have dom': "metric_type_set \<subseteq> dom (add_leaves m mfs)"
          using Cons.prems by (simp add: dom_add_leaves)
        have "all_root_children (f # fs) = mfs @ all_root_children fs"
          using True Some by (simp add: all_root_children_Cons is_root_def children_def)
        then show ?thesis
          using True Some present Cons.prems Cons.IH [OF dom']
          by (simp add: fields_present_def scan_metric_fields_eq add_leaves_append)
      qed
    qed
  qed
qed

lemma dom_init_metrics: "dom init_metrics = metric_type_set"
  by (auto simp: init_metrics_def dom_def)

lemma add_leaves_init:
  "add_leaves init_metrics mfs = (\<lambda>t. if t \<in> metric_type_set then Some (type_leaves t mfs) else None)"
  by (auto simp: add_leaves_def init_metrics_def fun_eq_iff)

lemma get_distribution_metrics_eq:
  "get_distribution_metrics schema =
     (if fields_present schema
      then Inr (\<lambda>t. if t \<in> metric_type_set
                    then Some (type_leaves t (all_root_children schema)) else None)
      else Inl (KeyError ''fields''))"
  by (simp add: get_distribution_metrics_def scan_root_fields_eq dom_init_metrics add_leaves_init)

lemma one_root_children:
  "length (filter is_root schema) \<le> 1 \<Longrightarrow> all_root_children schema = root_children schema"
proof (induction schema)
  case Nil
  then show ?case by (simp add: all_root_children_def root_children_def)
next
  case (Cons f fs)
  show ?case
  proof (cases "is_root f")
    case True
    with Cons.prems have "filter is_root fs = []" by simp
    then show ?thesis
      using True by (simp add: all_root_children_def root_children_def)
  next
    case False
    then show ?thesis
      using Cons by (simp add: all_root_children_def root_children_def)
  qed
qed

lemma finite_metric_type_set: "finite metric_type_set"
  by (simp add: metric_type_set_def)

lemma mset_type_leaves_sum:
  "(\<Sum>t \<in> metric_type_set. mset (type_leaves t mfs))
     = mset (concat (map (\<lambda>c. map name (children c))
                         (filter (\<lambda>c. name c \<in> metric_type_set) mfs)))"
proof (induction mfs)
  case Nil
  then show ?case by (simp add: type_leaves_Nil)
next
  case (Cons c cs)
  have "(\<Sum>t \<in> metric_type_set. mset (type_leaves t (c # cs)))
      = (\<Sum>t \<in> metric_type_set. (if name c = t then mset (map name (children c)) else {#}))
        + (\<Sum>t \<in> metric_type_set. mset (type_leaves t cs))"
    by (simp add: type_leaves_Cons sum.distrib [symmetric] if_distrib [of mset] cong: if_cong)
  also have "(\<Sum>t \<in> metric_type_set. (if name c = t then mset (map name (children c)) else {#}))
      = (if name c \<in> metric_type_set then mset (map name (children c)) else {#})"
    using finite_metric_type_set by (simp add: sum.delta')
  finally show ?case using Cons.IH by simp
qed

lemma scan_root_fields_no_root:
  "''metrics'' \<notin> set (map name schema) \<Longrightarrow> scan_root_fields schema m = Inr m"
  by (induction schema) auto

text \<open>
  Claim C8. A schema with no top-level field named \<^verbatim>\<open>metrics\<close> gives a mapping whose
  keys are exactly the three candidate metric types, each bound to the empty list.
\<close>

theorem no_root_field_all_empty:
  assumes "''metrics'' \<notin> set (map name schema)"
  shows "\<exists>m. get_distribution_metrics schema = Inr m
           \<and> dom m = metric_type_set
           \<and> (\<forall>t \<in> metric_type_set. m t = Some [])"
proof -
  have "get_distribution_metrics schema = Inr init_metrics"
    using assms by (simp add: get_distribution_metrics_def scan_root_fields_no_root)
  moreover have "dom init_metrics = metric_type_set"
    by (auto simp: init_metrics_def dom_def)
  moreover have "\<forall>t \<in> metric_type_set. init_metrics t = Some []"
    by (simp add: init_metrics_def)
  ultimately show ?thesis by blast
qed

theorem no_root_field_all_empty_witness:
  "''metrics'' \<notin> set (map name [Field ''client_info'' (Some [Field ''client_id'' None]),
                                    Field ''submission_timestamp'' None])
   \<and> (\<exists>m. get_distribution_metrics
              [Field ''client_info'' (Some [Field ''client_id'' None]),
               Field ''submission_timestamp'' None] = Inr m
          \<and> dom m = metric_type_set
          \<and> (\<forall>t \<in> metric_type_set. m t = Some []))"
  using no_root_field_all_empty
    [of "[Field ''client_info'' (Some [Field ''client_id'' None]),
          Field ''submission_timestamp'' None]"]
  by simp

text \<open>
  Claim C1 as the spec states it fails: a top-level field named \<^verbatim>\<open>metrics\<close> without a
  \<^verbatim>\<open>"fields"\<close> entry, and a metric-type child without one, make the walker raise
  \<^verbatim>\<open>KeyError\<close> at the subscript of line 48 or of line 52.
\<close>

theorem missing_fields_raises:
  "get_distribution_metrics [Field ''metrics'' None] = Inl (KeyError ''fields'')
   \<and> get_distribution_metrics
        [Field ''metrics'' (Some [Field ''timing_distribution'' None])]
       = Inl (KeyError ''fields'')"
  by (simp add: get_distribution_metrics_def metric_type_set_def)

text \<open>
  Claim C1, amended. When every top-level field named \<^verbatim>\<open>metrics\<close> and every
  metric-type child of one has its \<^verbatim>\<open>"fields"\<close> entry, the walker returns a mapping, and
  a metric type all of whose fields under the root have an empty list of children (as
  every type has when the root's own list is empty) is bound to the empty list. When
  one of those entries is absent the walker raises \<^verbatim>\<open>KeyError\<close>.
\<close>

theorem walker_returns_when_fields_present:
  "(fields_present schema \<longrightarrow>
      (\<exists>m. get_distribution_metrics schema = Inr m
         \<and> (\<forall>t \<in> metric_type_set.
               (\<forall>rf \<in> set schema. is_root rf \<longrightarrow>
                  (\<forall>mf \<in> set (children rf). name mf = t \<longrightarrow> children mf = []))
               \<longrightarrow> m t = Some [])))
   \<and> (\<not> fields_present schema \<longrightarrow>
        get_distribution_metrics schema = Inl (KeyError ''fields''))"
proof -
  have empty: "type_leaves t (all_root_children schema) = []"
    if "\<forall>rf \<in> set schema. is_root rf \<longrightarrow>
          (\<forall>mf \<in> set (children rf). name mf = t \<longrightarrow> children mf = [])" for t
    using that by (auto simp: type_leaves_def all_root_children_def)
  show ?thesis
    by (simp add: get_distribution_metrics_eq empty)
qed

theorem walker_returns_when_fields_present_witness:
  "fields_present
     [Field ''metrics'' (Some [Field ''timing_distribution'' (Some []),
                               Field ''memory_distribution'' (Some [Field ''heap'' None])])]
   \<and> (\<exists>m. get_distribution_metrics
              [Field ''metrics'' (Some [Field ''timing_distribution'' (Some []),
                                        Field ''memory_distribution'' (Some [Field ''heap'' None])])]
            = Inr m
          \<and> m ''timing_distribution'' = Some [])
   \<and> \<not> fields_present [Field ''metrics'' None]
   \<and> get_distribution_metrics [Field ''metrics'' None] = Inl (KeyError ''fields'')"
  using walker_returns_when_fields_present
    [of "[Field ''metrics'' (Some [Field ''timing_distribution'' (Some []),
                                   Field ''memory_distribution'' (Some [Field ''heap'' None])])]"]
    walker_returns_when_fields_present [of "[Field ''metrics'' None]"]
  by (auto simp: fields_present_def metric_fields_present_def metric_type_set_def
        is_root_def children_def)

text \<open>
  Claim C5. With at most one top-level field named \<^verbatim>\<open>metrics\<close>, every mapping the
  walker returns has the three metric types as its keys, binds each type to the names
  of the leaves under the root's children of that name, in schema order, and the
  multiset union of its lists is the multiset of the leaf names under the root's
  metric-type children. The walker returns whenever the \<^verbatim>\<open>"fields"\<close> entries it
  reads are present.
\<close>

theorem walker_output_exact:
  assumes "length (filter is_root schema) \<le> 1"
  shows "(fields_present schema \<longrightarrow> (\<exists>m. get_distribution_metrics schema = Inr m))
       \<and> (\<forall>m. get_distribution_metrics schema = Inr m \<longrightarrow>
             dom m = metric_type_set
           \<and> (\<forall>t \<in> metric_type_set. m t = Some (leaf_names t schema))
           \<and> (\<Sum>t \<in> dom m. mset (the (m t))) = mset (all_leaf_names schema))"
proof -
  let ?m = "\<lambda>t. if t \<in> metric_type_set then Some (leaf_names t schema) else None"
  have result: "get_distribution_metrics schema =
      (if fields_present schema then Inr ?m else Inl (KeyError ''fields''))"
    unfolding get_distribution_metrics_eq leaf_names_def one_root_children [OF assms] ..
  have dom: "dom ?m = metric_type_set"
    by (auto simp: dom_def)
  have "(\<Sum>t \<in> metric_type_set. mset (the (?m t)))
      = (\<Sum>t \<in> metric_type_set. mset (type_leaves t (root_children schema)))"
    by (simp add: leaf_names_def)
  also have "\<dots> = mset (all_leaf_names schema)"
    by (simp add: mset_type_leaves_sum all_leaf_names_def)
  finally have union: "(\<Sum>t \<in> dom ?m. mset (the (?m t))) = mset (all_leaf_names schema)"
    by (simp only: dom)
  show ?thesis
  proof (intro conjI allI impI)
    assume "fields_present schema"
    with result show "\<exists>m. get_distribution_metrics schema = Inr m" by simp
  next
    fix m assume "get_distribution_metrics schema = Inr m"
    with result have m: "m = ?m" by (simp split: if_splits)
    show "dom m = metric_type_set" unfolding m by (rule dom)
    show "\<forall>t \<in> metric_type_set. m t = Some (leaf_names t schema)" unfolding m by simp
    show "(\<Sum>t \<in> dom m. mset (the (m t))) = mset (all_leaf_names schema)"
      unfolding m by (rule union)
  qed
qed

theorem walker_output_exact_witness:
  "length (filter is_root
     [Field ''client_info'' None,
      Field ''metrics'' (Some [Field ''timing_distribution''
                                 (Some [Field ''load_time'' None, Field ''render_time'' None]),
                               Field ''counter'' (Some [Field ''clicks'' None])])]) \<le> 1
   \<and> (\<exists>m. get_distribution_metrics
         [Field ''client_info'' None,
          Field ''metrics'' (Some [Field ''timing_distribution''
                                     (Some [Field ''load_time'' None, Field ''render_time'' None]),
                                   Field ''counter'' (Some [Field ''clicks'' None])])] = Inr m
        \<and> m ''timing_distribution'' = Some [''load_time'', ''render_time'']
        \<and> m ''memory_distribution'' = Some []
        \<and> dom m = metric_type_set)"
proof -
  let ?S = "[Field ''client_info'' None,
      Field ''metrics'' (Some [Field ''timing_distribution''
                                 (Some [Field ''load_time'' None, Field ''render_time'' None]),
                               Field ''counter'' (Some [Field ''clicks'' None])])]"
  have one: "length (filter is_root ?S) \<le> 1"
    by (simp add: is_root_def)
  have present: "fields_present ?S"
    by (simp add: fields_present_def metric_fields_present_def metric_type_set_def)
  from walker_output_exact [OF one] present
  obtain m where m: "get_distribution_metrics ?S = Inr m" by blast
  with walker_output_exact [OF one]
  have d: "dom m = metric_type_set"
    and l: "\<forall>t \<in> metric_type_set. m t = Some (leaf_names t ?S)" by blast+
  have t: "leaf_names ''timing_distribution'' ?S = [''load_time'', ''render_time'']"
    by (simp add: leaf_names_def type_leaves_def root_children_def is_root_def children_def)
  have mem: "leaf_names ''memory_distribution'' ?S = []"
    by (simp add: leaf_names_def type_leaves_def root_children_def is_root_def children_def)
  have "m ''timing_distribution'' = Some [''load_time'', ''render_time'']"
    using l t by (simp add: metric_type_set_def)
  moreover have "m ''memory_distribution'' = Some []"
    using l mem by (simp add: metric_type_set_def)
  ultimately show ?thesis
    using one m d by blast
qed

section \<open>Properties of the metric tuple builder\<close>

lemma collect_items_pairs:
  "collect_items metrics = map (\<lambda>(t, n). make_item t n) (catalog_pairs metrics)"
  by (induction metrics) (auto simp: collect_items_eq catalog_pairs_def)





lemma name_type_mono: "x \<le> y \<Longrightarrow> name_type x \<le> name_type y"
  by (cases x; cases y) (auto simp: name_type_def less_eq_prod_def)

lemma sorted_name_type: "sorted xs \<Longrightarrow> sorted (map name_type xs)"
  by (induction xs) (auto simp: name_type_mono)

lemma mset_concat_map:
  "mset (concat (map f xs)) = sum_mset (image_mset (\<lambda>x. mset (f x)) (mset xs))"
  by (induction xs) simp_all

lemma mset_catalog_pairs:
  "mset ms' = mset ms \<Longrightarrow> mset (catalog_pairs ms') = mset (catalog_pairs ms)"
  by (simp add: catalog_pairs_def mset_concat_map)

lemma sorted_items_permutation:
  assumes "mset ms' = mset ms"
  shows "sorted_items ms' = sorted_items ms"
proof -
  have "mset (collect_items ms') = mset (collect_items ms)"
    using mset_catalog_pairs [OF assms] by (simp add: collect_items_pairs)
  then have "mset (sort (collect_items ms')) = mset (sort (collect_items ms))"
    by simp
  then show ?thesis
    unfolding sorted_items_def
    by (intro sorted_distinct_set_unique properties_for_sort) simp_all
qed

lemma join_Nil_iff: "join sep [] = []" by simp

lemma collect_items_empty_iff:
  "collect_items metrics = [] \<longleftrightarrow> list_all (\<lambda>p. snd p = []) metrics"
  by (induction metrics) (auto simp: collect_items_eq)



text \<open>
  Claim C6. The fragment joins the rendering of a list of tuples whose
  \<^verbatim>\<open>(name, type)\<close> pairs ascend in the lexicographic order, and a catalog with the same
  entries in another order gives the same fragment.
\<close>

theorem rows_sorted_by_name_type:
  "get_metrics_sql metrics = join '','' (map render_item (sorted_items metrics))
   \<and> sorted (map name_type (sorted_items metrics))
   \<and> (\<forall>metrics'. mset metrics' = mset metrics \<longrightarrow>
          get_metrics_sql metrics' = get_metrics_sql metrics)"
proof (intro conjI allI impI)
  show "get_metrics_sql metrics = join '','' (map render_item (sorted_items metrics))"
    by (simp add: get_metrics_sql_def metric_results_eq)
  show "sorted (map name_type (sorted_items metrics))"
    by (simp add: sorted_items_def sorted_name_type)
next
  fix metrics' :: catalog
  assume "mset metrics' = mset metrics"
  then have "sorted_items metrics' = sorted_items metrics"
    by (rule sorted_items_permutation)
  then show "get_metrics_sql metrics' = get_metrics_sql metrics"
    by (simp add: get_metrics_sql_def metric_results_eq)
qed

theorem rows_sorted_by_name_type_witness:
  "mset [(''memory_distribution'', [''heap'']), (''timing_distribution'', [''load'', ''draw''])]
     = mset [(''timing_distribution'', [''load'', ''draw'']), (''memory_distribution'', [''heap''])]
   \<and> get_metrics_sql
         [(''memory_distribution'', [''heap'']), (''timing_distribution'', [''load'', ''draw''])]
     = get_metrics_sql
         [(''timing_distribution'', [''load'', ''draw'']), (''memory_distribution'', [''heap''])]
   \<and> map name_type (sorted_items
         [(''timing_distribution'', [''load'', ''draw'']), (''memory_distribution'', [''heap''])])
     = [(''draw'', ''timing_distribution''), (''heap'', ''memory_distribution''),
        (''load'', ''timing_distribution'')]"
proof -
  let ?a = "[(''memory_distribution'', [''heap'']), (''timing_distribution'', [''load'', ''draw''])]"
  let ?b = "[(''timing_distribution'', [''load'', ''draw'']), (''memory_distribution'', [''heap''])]"
  have perm: "mset ?a = mset ?b"
    by (simp add: add.commute)
  with rows_sorted_by_name_type [of ?b]
  have "get_metrics_sql ?a = get_metrics_sql ?b" by blast
  moreover have "map name_type (sorted_items ?b)
     = [(''draw'', ''timing_distribution''), (''heap'', ''memory_distribution''),
        (''load'', ''timing_distribution'')]"
    by (simp add: sorted_items_def collect_items_def make_item_def name_type_def)
  ultimately show ?thesis using perm by blast
qed

text \<open>
  Claim C7. The fragment of the catalog of the spec's example, character for character.
\<close>

theorem example_fragment:
  "get_metrics_sql
     [(''timing_distribution'', [''load_time'', ''render_time'']),
      (''memory_distribution'', []),
      (''custom_distribution'', [])]
   = ''(\"load_time\", \"timing_distribution\", metrics.timing_distribution.load_time.sum, metrics.timing_distribution.load_time.values),(\"render_time\", \"timing_distribution\", metrics.timing_distribution.render_time.sum, metrics.timing_distribution.render_time.values)''"
  by (simp add: get_metrics_sql_def metric_results_def sorted_items_def collect_items_def
        make_item_def render_item_def)

text \<open>
  Claim C9. A catalog that yields no tuple gives the empty string, and a catalog whose
  lists are all empty yields no tuple.
\<close>

theorem no_tuples_empty_string:
  "(collect_items metrics = [] \<longrightarrow> get_metrics_sql metrics = [])
   \<and> (list_all (\<lambda>entry. snd entry = []) metrics \<longrightarrow> collect_items metrics = [])"
proof (intro conjI impI)
  assume "collect_items metrics = []"
  then show "get_metrics_sql metrics = []"
    by (simp add: get_metrics_sql_def metric_results_eq sorted_items_def)
next
  assume "list_all (\<lambda>entry. snd entry = []) metrics"
  then show "collect_items metrics = []"
    by (simp add: collect_items_empty_iff)
qed

theorem no_tuples_empty_string_witness:
  "list_all (\<lambda>entry. snd entry = [])
     [(''timing_distribution'', []), (''memory_distribution'', []), (''custom_distribution'', [])]
   \<and> collect_items
     [(''timing_distribution'', []), (''memory_distribution'', []), (''custom_distribution'', [])] = []
   \<and> get_metrics_sql
     [(''timing_distribution'', []), (''memory_distribution'', []), (''custom_distribution'', [])] = []"
  using no_tuples_empty_string
    [of "[(''timing_distribution'', []), (''memory_distribution'', []),
          (''custom_distribution'', [])]"]
  by simp

section \<open>Properties of the attribute combination enumerator\<close>

lemma combinations_subseqs:
  "combinations xs r = filter (\<lambda>g. length g = r) (subseqs xs)"
proof (induction xs r rule: combinations.induct)
  case (1 xs)
  show ?case
  proof (induction xs)
    case Nil
    show ?case by simp
  next
    case (Cons x xs)
    then show ?case by (simp add: Let_def filter_map comp_def)
  qed
next
  case (2 r)
  show ?case by simp
next
  case (3 x xs r)
  then show ?case by (simp add: Let_def filter_map comp_def)
qed

lemma in_combinations_iff:
  "g \<in> set (combinations xs r) \<longleftrightarrow> subseq g xs \<and> length g = r"
  by (auto simp: combinations_subseqs)

lemma combinations_subset: "g \<in> set (combinations xs r) \<Longrightarrow> set g \<subseteq> set xs"
  by (induction xs r arbitrary: g rule: combinations.induct) (auto, blast+)

lemma combinations_length: "g \<in> set (combinations xs r) \<Longrightarrow> length g = r"
  by (simp add: in_combinations_iff)

lemma combinations_map: "combinations (map f xs) r = map (map f) (combinations xs r)"
  by (induction xs r rule: combinations.induct) simp_all

lemma combinations_strict_sorted:
  fixes xs :: "'a::linorder list"
  shows "sorted_wrt (<) xs \<Longrightarrow> sorted_wrt (<) (combinations xs r)"
proof (induction xs r rule: combinations.induct)
  case (1 xs)
  show ?case by simp
next
  case (2 r)
  show ?case by simp
next
  case (3 x xs r)
  from "3.prems" have xs: "sorted_wrt (<) xs" and x: "\<forall>y \<in> set xs. x < y" by simp_all
  have left: "sorted_wrt (<) (map ((#) x) (combinations xs r))"
    using "3.IH"(1) [OF xs] by (simp add: sorted_wrt_map)
  have right: "sorted_wrt (<) (combinations xs (Suc r))"
    using "3.IH"(2) [OF xs] .
  have cross: "x # g < h"
    if "g \<in> set (combinations xs r)" and "h \<in> set (combinations xs (Suc r))" for g h
  proof -
    from that(2) have "length h = Suc r" and "set h \<subseteq> set xs"
      by (simp_all add: combinations_length combinations_subset)
    then obtain y h' where h: "h = y # h'" and "y \<in> set xs"
      by (cases h) auto
    with x show ?thesis by simp
  qed
  show ?case
    using left right cross by (auto simp: sorted_wrt_append)
qed

lemma eligible_required: "eligible g \<longleftrightarrow> required \<subseteq> set g"
  by (simp add: eligible_def required_def)

lemma in_attribute_combinations:
  assumes "c \<in> set (attribute_combinations attributes)"
  obtains r g where "g \<in> set (combinations attributes r)" and "eligible g"
    and "c = select_expr attributes g"
  using assms unfolding attribute_combinations_eq by auto

text \<open>
  Claim C3 as the spec states it, for every required set, fails: the loop reads no
  required set, only the two names of line 32. With \<^verbatim>\<open>os\<close> required it emits a
  combination that flags \<^verbatim>\<open>os\<close> as excluded, and with \<^verbatim>\<open>ping_type\<close> required, which
  the attribute list does not contain, it still emits combinations.
\<close>

theorem other_required_set_ignored:
  "attribute_combinations [''os'', ''channel'', ''app_version'']
     = [[(''os'', True), (''channel'', True), (''app_version'', True)],
        [(''os'', False), (''channel'', True), (''app_version'', True)]]
   \<and> \<not> (\<forall>c \<in> set (attribute_combinations [''os'', ''channel'', ''app_version'']).
            \<forall>a \<in> {''os''}. (a, True) \<in> set c)
   \<and> \<not> {''ping_type''} \<subseteq> set [''os'', ''channel'', ''app_version'']
   \<and> attribute_combinations [''os'', ''channel'', ''app_version''] \<noteq> []"
proof -
  have run: "attribute_combinations [''os'', ''channel'', ''app_version'']
     = [[(''os'', True), (''channel'', True), (''app_version'', True)],
        [(''os'', False), (''channel'', True), (''app_version'', True)]]"
    by code_simp
  show ?thesis
    unfolding run by simp
qed

text \<open>
  Claim C3, amended. The required set is the fixed pair of line 32: every combination
  the loop emits flags \<^verbatim>\<open>channel\<close> and \<^verbatim>\<open>app_version\<close> as included and never as
  excluded, and when one of the two is missing from the attribute list nothing is
  emitted.
\<close>

theorem required_flags_true:
  "(\<forall>c \<in> set (attribute_combinations attributes).
      \<forall>a \<in> required. (a, True) \<in> set c \<and> (a, False) \<notin> set c)
   \<and> (\<not> required \<subseteq> set attributes \<longrightarrow> attribute_combinations attributes = [])"
proof (intro conjI ballI impI)
  fix c a
  assume c: "c \<in> set (attribute_combinations attributes)" and a: "a \<in> required"
  from c obtain r g where g: "g \<in> set (combinations attributes r)" "eligible g"
    and sel: "c = select_expr attributes g"
    by (rule in_attribute_combinations)
  from g(2) a have "a \<in> set g" by (auto simp: eligible_required)
  moreover from this g(1) have "a \<in> set attributes"
    using combinations_subset by blast
  ultimately show "(a, True) \<in> set c" and "(a, False) \<notin> set c"
    by (auto simp: sel select_expr_eq)
next
  assume missing: "\<not> required \<subseteq> set attributes"
  have "\<not> eligible g" if "g \<in> set (combinations attributes r)" for g r
    using combinations_subset [OF that] missing by (auto simp: eligible_required)
  then have "filter eligible (combinations attributes r) = []" for r
    by (simp add: filter_empty_conv)
  then show "attribute_combinations attributes = []"
    by (simp add: attribute_combinations_eq)
qed

theorem required_flags_true_witness:
  "attribute_combinations [''os'', ''app_version'', ''channel'']
     = [[(''os'', True), (''app_version'', True), (''channel'', True)],
        [(''os'', False), (''app_version'', True), (''channel'', True)]]
   \<and> (''channel'', True) \<in> set [(''os'', False), (''app_version'', True), (''channel'', True)]
   \<and> (''channel'', False) \<notin> set [(''os'', False), (''app_version'', True), (''channel'', True)]
   \<and> \<not> required \<subseteq> set [''os'', ''channel'']
   \<and> attribute_combinations [''os'', ''channel''] = []"
proof -
  have run: "attribute_combinations [''os'', ''app_version'', ''channel'']
     = [[(''os'', True), (''app_version'', True), (''channel'', True)],
        [(''os'', False), (''app_version'', True), (''channel'', True)]]"
    by (simp add: attribute_combinations_def grouping_step_def select_expr_def upt_rec)
  have member: "[(''os'', False), (''app_version'', True), (''channel'', True)]
      \<in> set (attribute_combinations [''os'', ''app_version'', ''channel''])"
    by (simp add: run)
  have req: "''channel'' \<in> required"
    by (simp add: required_def)
  have missing: "\<not> required \<subseteq> set [''os'', ''channel'']"
    by (simp add: required_def)
  from required_flags_true [of "[''os'', ''app_version'', ''channel'']"] member req
  have "(''channel'', True) \<in> set [(''os'', False), (''app_version'', True), (''channel'', True)]
      \<and> (''channel'', False) \<notin> set [(''os'', False), (''app_version'', True), (''channel'', True)]"
    by blast
  moreover from required_flags_true [of "[''os'', ''channel'']"] missing
  have "attribute_combinations [''os'', ''channel''] = []" by blast
  ultimately show ?thesis using run missing by blast
qed

lemma mset_filter_length_upto:
  "mset (concat (map (\<lambda>r. filter (\<lambda>g. P g \<and> length g = r) S) [0..<k]))
     = mset (filter (\<lambda>g. P g \<and> length g < k) S)"
proof (induction k)
  case 0
  show ?case by simp
next
  case (Suc k)
  have "mset (filter (\<lambda>g. P g \<and> length g < k) S) + mset (filter (\<lambda>g. P g \<and> length g = k) S)
      = mset (filter (\<lambda>g. P g \<and> length g < Suc k) S)"
    by (induction S) (auto simp: less_Suc_eq)
  with Suc show ?case by simp
qed

lemma mset_eligible_combinations:
  "mset (concat (map (\<lambda>r. filter P (combinations xs r)) (rev [0..<length xs + 1])))
     = mset (filter P (subseqs xs))"
proof -
  let ?chunk = "\<lambda>r. filter (\<lambda>g. P g \<and> length g = r) (subseqs xs)"
  have chunk: "filter P (combinations xs r) = ?chunk r" for r
    by (simp add: combinations_subseqs conj_commute)
  have "mset (concat (map ?chunk (rev [0..<length xs + 1])))
      = mset (concat (map ?chunk [0..<length xs + 1]))"
    by (simp only: mset_concat rev_map [symmetric] mset_rev sum_mset_sum_list [symmetric])
  also have "\<dots> = mset (filter (\<lambda>g. P g \<and> length g < length xs + 1) (subseqs xs))"
    by (rule mset_filter_length_upto)
  also have "filter (\<lambda>g. P g \<and> length g < length xs + 1) (subseqs xs) = filter P (subseqs xs)"
    by (rule filter_cong) (auto simp: less_Suc_eq_le dest: list_emb_length)
  finally show ?thesis by (simp only: chunk)
qed

lemma count_subseqs_containing:
  "distinct xs \<Longrightarrow>
   length (filter (\<lambda>g. R \<subseteq> set g) (subseqs xs))
     = (if R \<subseteq> set xs then 2 ^ (length xs - card R) else 0)"
proof (induction xs arbitrary: R)
  case Nil
  show ?case by (cases "R = {}") simp_all
next
  case (Cons x xs)
  let ?cnt = "\<lambda>R. length (filter (\<lambda>g. R \<subseteq> set g) (subseqs xs))"
  from Cons.prems have dist: "distinct xs" and fresh: "x \<notin> set xs" by simp_all
  have with_x: "length (filter (\<lambda>g. R \<subseteq> set g) (map ((#) x) (subseqs xs))) = ?cnt (R - {x})"
  proof -
    have "(R \<subseteq> set (x # g)) = (R - {x} \<subseteq> set g)" for g
      by auto
    then show ?thesis
      by (simp only: filter_map comp_def length_map)
  qed
  have split: "length (filter (\<lambda>g. R \<subseteq> set g) (subseqs (x # xs))) = ?cnt (R - {x}) + ?cnt R"
    using with_x by (simp add: Let_def)
  show ?case
  proof (cases "x \<in> R")
    case True
    then have notsub: "\<not> R \<subseteq> set xs" using fresh by auto
    show ?thesis
    proof (cases "R - {x} \<subseteq> set xs")
      case sub: True
      then have "finite (R - {x})" by (rule finite_subset) simp
      then have fin: "finite R" by simp
      with True have card: "card (R - {x}) = card R - 1" and pos: "0 < card R"
        by (auto simp: card_gt_0_iff)
      have "R \<subseteq> set (x # xs)" using sub by auto
      moreover have "length xs - (card R - 1) = length (x # xs) - card R"
        using pos by simp
      ultimately show ?thesis
        using split sub notsub card by (simp add: Cons.IH [OF dist])
    next
      case False
      then have "\<not> R \<subseteq> set (x # xs)" by auto
      then show ?thesis
        using split False notsub by (simp add: Cons.IH [OF dist])
    qed
  next
    case False
    then have same: "R - {x} = R" by auto
    show ?thesis
    proof (cases "R \<subseteq> set xs")
      case sub: True
      then have "card R \<le> card (set xs)" by (intro card_mono) simp_all
      also have "\<dots> = length xs" using dist by (rule distinct_card)
      finally have "Suc (length xs) - card R = Suc (length xs - card R)" by simp
      moreover have "R \<subseteq> set (x # xs)" using sub by auto
      ultimately show ?thesis
        using split same sub by (simp add: Cons.IH [OF dist])
    next
      case nsub: False
      then have "\<not> R \<subseteq> set (x # xs)" using False by auto
      then show ?thesis
        using split same nsub by (simp add: Cons.IH [OF dist])
    qed
  qed
qed

lemma card_required: "card required = 2"
  by (simp add: required_def)

lemma included_select_expr:
  "set g \<subseteq> set attributes \<Longrightarrow> included (select_expr attributes g) = set g"
  by (auto simp: included_def select_expr_eq filter_map comp_def)

lemma attribute_combinations_groupings:
  "attribute_combinations attributes
     = map (select_expr attributes) (eligible_groupings attributes)"
  by (simp add: attribute_combinations_eq eligible_groupings_def map_concat comp_def)

lemma mset_eligible_groupings:
  "mset (eligible_groupings attributes) = mset (filter eligible (subseqs attributes))"
  unfolding eligible_groupings_def by (rule mset_eligible_combinations)

lemma set_eligible_groupings:
  "set (eligible_groupings attributes) = {g. subseq g attributes \<and> eligible g}"
proof -
  have "set (eligible_groupings attributes) = set (filter eligible (subseqs attributes))"
    using mset_eligible_groupings by (rule mset_eq_setD)
  then show ?thesis by auto
qed

lemma eligible_groupings_subset:
  "g \<in> set (eligible_groupings attributes) \<Longrightarrow> set g \<subseteq> set attributes"
  unfolding eligible_groupings_def using combinations_subset by auto

lemma included_attribute_combinations:
  "map included (attribute_combinations attributes) = map set (eligible_groupings attributes)"
  by (simp add: attribute_combinations_groupings included_select_expr eligible_groupings_subset)

text \<open>
  Claim C10. For pairwise distinct attributes that contain \<^verbatim>\<open>channel\<close> and
  \<^verbatim>\<open>app_version\<close> the loop emits \<open>2 ^ (n - 2)\<close> combinations, no two of which include the
  same attributes, and the sets they include are the subsets of the attribute list
  that contain both.
\<close>

theorem combination_count:
  assumes "distinct attributes"
    and "''channel'' \<in> set attributes" and "''app_version'' \<in> set attributes"
  shows "length (attribute_combinations attributes) = 2 ^ (length attributes - 2)
       \<and> distinct (map included (attribute_combinations attributes))
       \<and> included ` set (attribute_combinations attributes)
           = {S. required \<subseteq> S \<and> S \<subseteq> set attributes}"
proof (intro conjI)
  have req: "required \<subseteq> set attributes"
    using assms(2,3) by (simp add: required_def)
  have "length (attribute_combinations attributes) = size (mset (eligible_groupings attributes))"
    by (simp add: attribute_combinations_groupings)
  also have "\<dots> = size (mset (filter eligible (subseqs attributes)))"
    by (simp only: mset_eligible_groupings)
  also have "\<dots> = length (filter (\<lambda>g. required \<subseteq> set g) (subseqs attributes))"
  proof -
    have "eligible = (\<lambda>g. required \<subseteq> set g)"
      by (simp add: fun_eq_iff eligible_required)
    then show ?thesis by (simp only: size_mset)
  qed
  also have "\<dots> = 2 ^ (length attributes - 2)"
    using req by (simp add: count_subseqs_containing [OF assms(1)] card_required)
  finally show "length (attribute_combinations attributes) = 2 ^ (length attributes - 2)" .
next
  have "mset (map set (eligible_groupings attributes))
      = mset (map set (filter eligible (subseqs attributes)))"
    by (simp add: mset_eligible_groupings)
  moreover have "distinct (map set (filter eligible (subseqs attributes)))"
    using distinct_set_subseqs [OF assms(1)] by (rule distinct_map_filter)
  ultimately have "distinct (map set (eligible_groupings attributes))"
    using mset_eq_imp_distinct_iff by blast
  then show "distinct (map included (attribute_combinations attributes))"
    by (simp only: included_attribute_combinations)
next
  have "included ` set (attribute_combinations attributes)
      = set (map included (attribute_combinations attributes))"
    by simp
  also have "\<dots> = set ` set (eligible_groupings attributes)"
    by (simp only: included_attribute_combinations set_map)
  also have "\<dots> = {S \<in> set ` set (subseqs attributes). required \<subseteq> S}"
    by (auto simp: set_eligible_groupings eligible_required)
  also have "\<dots> = {S. required \<subseteq> S \<and> S \<subseteq> set attributes}"
    by (auto simp: subseqs_powset)
  finally show "included ` set (attribute_combinations attributes)
      = {S. required \<subseteq> S \<and> S \<subseteq> set attributes}" .
qed

theorem combination_count_witness:
  "distinct [''os'', ''app_version'', ''app_build_id'', ''channel'']
   \<and> ''channel'' \<in> set [''os'', ''app_version'', ''app_build_id'', ''channel'']
   \<and> ''app_version'' \<in> set [''os'', ''app_version'', ''app_build_id'', ''channel'']
   \<and> length (attribute_combinations [''os'', ''app_version'', ''app_build_id'', ''channel'']) = 4"
  using combination_count [of "[''os'', ''app_version'', ''app_build_id'', ''channel'']"]
  by simp

text \<open>
  Claim C4 as the spec states it fails when an attribute is listed twice: the flag of
  line 36 is set by name, so a grouping that holds one occurrence marks both, and the
  number of included attributes rises from 4 to 5 along the emitted sequence.
\<close>

theorem repeated_attribute_count_rises:
  "map (\<lambda>c. length (included_indices c))
       (attribute_combinations [''channel'', ''app_version'', ''os'', ''os'', ''ping_type''])
     = [5, 4, 5, 5, 4, 4, 3, 2]"
  by code_simp


lemma included_indices_select_expr:
  "included_indices (select_expr attributes g)
     = filter (\<lambda>i. attributes ! i \<in> set g) [0..<length attributes]"
  unfolding included_indices_def select_expr_eq
  by (rule filter_cong) simp_all

lemma strict_sorted_filter_member:
  fixes ps :: "nat list"
  assumes "sorted_wrt (<) ps" and "set ps \<subseteq> {0..<n}"
  shows "filter (\<lambda>i. i \<in> set ps) [0..<n] = ps"
proof (rule sorted_distinct_set_unique)
  show "sorted (filter (\<lambda>i. i \<in> set ps) [0..<n])" by (simp add: sorted_wrt_filter)
  show "distinct (filter (\<lambda>i. i \<in> set ps) [0..<n])" by simp
  show "sorted ps" using assms(1) by (simp add: strict_sorted_iff)
  show "distinct ps" using assms(1) by (simp add: strict_sorted_iff)
  show "set (filter (\<lambda>i. i \<in> set ps) [0..<n]) = set ps" using assms(2) by auto
qed

lemma combination_sorted_wrt:
  "sorted_wrt P xs \<Longrightarrow> g \<in> set (combinations xs r) \<Longrightarrow> sorted_wrt P g"
proof (induction xs r arbitrary: g rule: combinations.induct)
  case (1 xs)
  then show ?case by simp
next
  case (2 r)
  then show ?case by simp
next
  case (3 x xs r)
  from "3.prems"(1) have xs: "sorted_wrt P xs" and x: "\<forall>y \<in> set xs. P x y" by simp_all
  from "3.prems"(2) consider g' where "g = x # g'" "g' \<in> set (combinations xs r)"
    | "g \<in> set (combinations xs (Suc r))" by auto
  then show ?case
  proof cases
    case 1
    with "3.IH"(1) [OF xs] have "sorted_wrt P g'" by blast
    moreover have "set g' \<subseteq> set xs" using 1(2) by (rule combinations_subset)
    ultimately show ?thesis using 1(1) x by auto
  next
    case 2
    with "3.IH"(2) [OF xs] show ?thesis by blast
  qed
qed

lemma positions_of_combination:
  assumes ps: "ps \<in> set (combinations [0..<n] r)"
  shows "sorted_wrt (<) ps" and "set ps \<subseteq> {0..<n}" and "length ps = r"
proof -
  show "sorted_wrt (<) ps"
    using sorted_wrt_upt ps by (rule combination_sorted_wrt)
  show "set ps \<subseteq> {0..<n}"
    using combinations_subset [OF ps] by simp
  show "length ps = r"
    using ps by (rule combinations_length)
qed

lemma included_indices_of_positions:
  assumes "distinct attributes" and "ps \<in> set (combinations [0..<length attributes] r)"
  shows "included_indices (select_expr attributes (map ((!) attributes) ps)) = ps"
proof -
  note facts = positions_of_combination [OF assms(2)]
  have "(attributes ! i \<in> set (map ((!) attributes) ps)) = (i \<in> set ps)"
    if "i \<in> set [0..<length attributes]" for i
  proof
    assume "attributes ! i \<in> set (map ((!) attributes) ps)"
    then obtain j where j: "j \<in> set ps" "attributes ! i = attributes ! j" by auto
    with facts(2) have "j < length attributes" by auto
    with j that assms(1) show "i \<in> set ps"
      by (simp add: nth_eq_iff_index_eq)
  next
    assume "i \<in> set ps"
    then show "attributes ! i \<in> set (map ((!) attributes) ps)" by simp
  qed
  then have "filter (\<lambda>i. attributes ! i \<in> set (map ((!) attributes) ps)) [0..<length attributes]
      = filter (\<lambda>i. i \<in> set ps) [0..<length attributes]"
    by (rule filter_cong [OF refl])
  also have "\<dots> = ps"
    using facts(1,2) by (rule strict_sorted_filter_member)
  finally show ?thesis
    by (simp only: included_indices_select_expr)
qed

lemma combinations_by_position:
  "combinations attributes r
     = map (map ((!) attributes)) (combinations [0..<length attributes] r)"
proof -
  have "combinations (map ((!) attributes) [0..<length attributes]) r
      = map (map ((!) attributes)) (combinations [0..<length attributes] r)"
    by (rule combinations_map)
  then show ?thesis by (simp only: map_nth)
qed

lemma eligible_groupings_by_position:
  "eligible_groupings attributes = map (map ((!) attributes)) (eligible_positions attributes)"
  unfolding eligible_groupings_def eligible_positions_def
  by (simp add: combinations_by_position [of attributes] filter_map comp_def map_concat)

lemma in_eligible_positions:
  assumes "ps \<in> set (eligible_positions attributes)"
  obtains r where "ps \<in> set (combinations [0..<length attributes] r)"
  using assms unfolding eligible_positions_def by auto

lemma included_indices_attribute_combinations:
  assumes "distinct attributes"
  shows "map included_indices (attribute_combinations attributes) = eligible_positions attributes"
proof -
  have "map included_indices (attribute_combinations attributes)
      = map (\<lambda>ps. included_indices (select_expr attributes (map ((!) attributes) ps)))
            (eligible_positions attributes)"
    by (simp add: attribute_combinations_groupings eligible_groupings_by_position comp_def)
  also have "\<dots> = map (\<lambda>ps. ps) (eligible_positions attributes)"
  proof (rule map_cong [OF refl])
    fix ps assume "ps \<in> set (eligible_positions attributes)"
    then obtain r where "ps \<in> set (combinations [0..<length attributes] r)"
      by (rule in_eligible_positions)
    with assms show "included_indices (select_expr attributes (map ((!) attributes) ps)) = ps"
      by (rule included_indices_of_positions)
  qed
  finally show ?thesis by simp
qed

lemma sorted_wrt_chunks:
  fixes chunk :: "nat \<Rightarrow> nat list list"
  assumes "sorted_wrt (>) rs"
    and "\<And>r. sorted_wrt (<) (chunk r)"
    and "\<And>r ps. ps \<in> set (chunk r) \<Longrightarrow> length ps = r"
  shows "sorted_wrt emitted_before (concat (map chunk rs))"
  using assms(1)
proof (induction rs)
  case Nil
  show ?case by simp
next
  case (Cons r rs)
  have inner: "sorted_wrt emitted_before (chunk r)"
  proof (rule sorted_wrt_mono_rel [OF _ assms(2)])
    fix a b assume "a \<in> set (chunk r)" "b \<in> set (chunk r)" "a < b"
    then show "emitted_before a b"
      using assms(3) by (simp add: emitted_before_def)
  qed
  have cross: "emitted_before a b"
    if "a \<in> set (chunk r)" and "b \<in> set (concat (map chunk rs))" for a b
  proof -
    from that(2) obtain r' where "r' \<in> set rs" "b \<in> set (chunk r')" by auto
    with Cons.prems that(1) assms(3) have "length b < length a" by auto
    then show ?thesis by (simp add: emitted_before_def)
  qed
  from Cons show ?case
    using inner cross by (simp add: sorted_wrt_append)
qed

lemma eligible_positions_ordered:
  "sorted_wrt emitted_before (eligible_positions attributes)"
  unfolding eligible_positions_def
proof (rule sorted_wrt_chunks)
  show "sorted_wrt (>) (rev [0..<length attributes + 1])"
    by (simp only: sorted_wrt_rev sorted_wrt_upt)
next
  fix r
  show "sorted_wrt (<) (filter (\<lambda>ps. eligible (map ((!) attributes) ps))
                          (combinations [0..<length attributes] r))"
    by (intro sorted_wrt_filter combinations_strict_sorted sorted_wrt_upt)
next
  fix r ps
  assume "ps \<in> set (filter (\<lambda>ps. eligible (map ((!) attributes) ps))
                          (combinations [0..<length attributes] r))"
  then show "length ps = r" by (auto dest: combinations_length)
qed

text \<open>
  Claim C4, amended. For pairwise distinct attributes, of two combinations the one
  emitted first includes more attributes, or as many at lexicographically smaller
  positions of the attribute list.
\<close>

theorem emission_order:
  assumes "distinct attributes"
  shows "sorted_wrt emitted_before (map included_indices (attribute_combinations attributes))"
  using eligible_positions_ordered
  by (simp only: included_indices_attribute_combinations [OF assms])

theorem emission_order_witness:
  "distinct [''os'', ''app_version'', ''app_build_id'', ''channel'']
   \<and> map included_indices
         (attribute_combinations [''os'', ''app_version'', ''app_build_id'', ''channel''])
       = [[0, 1, 2, 3], [0, 1, 3], [1, 2, 3], [1, 3]]
   \<and> sorted_wrt emitted_before [[0, 1, 2, 3], [0, 1, 3], [1, 2, 3], [1, 3]]"
proof -
  have d: "distinct [''os'', ''app_version'', ''app_build_id'', ''channel'']"
    by simp
  have run: "map included_indices
         (attribute_combinations [''os'', ''app_version'', ''app_build_id'', ''channel''])
       = [[0, 1, 2, 3], [0, 1, 3], [1, 2, 3], [1, 3]]"
    by code_simp
  from emission_order [OF d] have
    "sorted_wrt emitted_before [[0, 1, 2, 3], [0, 1, 3], [1, 2, 3], [1, 3]]"
    by (simp only: run)
  with d run show ?thesis by blast
qed

end
